theory Spec2Isabelle
  imports Main "HOL-Library.Sublist"
begin

section \<open>Clock, log and stored entries\<close>

text \<open>
  A \<open>time_point\<close> is the tick count of \<open>std::chrono::steady_clock\<close> (nanoseconds on
  libstdc++ and libc++). The clock is an input of the program: \<open>clk n\<close> is what the
  \<open>n\<close>-th call of \<open>steady_clock::now()\<close> returns, and the world counts the calls made
  so far. A steady clock never goes back, which is \<open>mono clk\<close>. The tick count is a
  signed 64-bit integer in C++: a time point is an \<open>int\<close> here, and the one sum the
  program forms on time points (in \<open>calculate_expiry\<close>) is taken in 64 bits. Beyond
  that range C++ leaves the sum undefined and the compiled code wraps around, which
  \<open>wrap64\<close> writes out; \<open>fits_int64\<close> says that a value is in range.
\<close>

type_synonym time_point = int

type_synonym clock = "nat \<Rightarrow> time_point"

definition fits_int64 :: "int \<Rightarrow> bool" where
  "fits_int64 x = (- 9223372036854775808 \<le> x \<and> x < 9223372036854775808)"

definition wrap64 :: "int \<Rightarrow> int" where
  "wrap64 x = (x + 9223372036854775808) mod 18446744073709551616 - 9223372036854775808"

text \<open>
  \<open>std::chrono::seconds(n)\<close> as a number of clock ticks. The argument is a 32-bit
  \<open>int\<close> in the source, so the product is within 64 bits.
\<close>

definition seconds :: "int \<Rightarrow> int" where
  "seconds n = n * 1000000000"

datatype LogLevel = INFO | WARNING | ERROR

type_synonym log_line = "LogLevel \<times> string"

record StoreEntry =
  entry_value :: string
  expires_at :: "time_point option"

text \<open>
  \<open>std::to_string\<close> on an integer: decimal digits, with a minus sign. \<open>digit_char\<close> is
  only applied to numbers below ten.
\<close>

definition digit_char :: "nat \<Rightarrow> char" where
  "digit_char d = ''0123456789'' ! d"

fun to_string_nat :: "nat \<Rightarrow> string" where
  "to_string_nat n =
     (if n < 10 then [digit_char n] else to_string_nat (n div 10) @ [digit_char (n mod 10)])"

declare to_string_nat.simps [simp del]

definition quote :: char where
  "quote = CHR 0x27"

text \<open>The dash of the \<open>DEL\<close> log lines is U+2014, three bytes in UTF-8.\<close>

definition em_dash :: string where
  "em_dash = [CHR 0xE2, CHR 0x80, CHR 0x94]"

definition to_string :: "int \<Rightarrow> string" where
  "to_string i = (if i < 0 then CHR ''-'' # to_string_nat (nat (- i)) else to_string_nat (nat i))"

section \<open>ThreadSafeHashMap\<close>

text \<open>
  \<open>std::unordered_map<Key, Value>\<close> is an association list with distinct keys; the order
  of the list is the iteration order of the container. Every method of
  \<open>ThreadSafeHashMap\<close> runs under the map's lock, so each is one atomic step on this
  list. Where a new key lands in the iteration order is unspecified in C++; the model
  puts it last. \<open>erase\<close> keeps the order of the remaining elements.
\<close>

type_synonym ('k, 'v) hash_map = "('k \<times> 'v) list"

definition unique_keys :: "('k, 'v) hash_map \<Rightarrow> bool" where
  "unique_keys m = distinct (map fst m)"

fun insert_or_assign :: "'k \<Rightarrow> 'v \<Rightarrow> ('k, 'v) hash_map \<Rightarrow> ('k, 'v) hash_map" where
  "insert_or_assign key v [] = [(key, v)]"
| "insert_or_assign key v ((k, v') # m) =
     (if k = key then (key, v) # m else (k, v') # insert_or_assign key v m)"

text \<open>\<open>map_.erase(key)\<close>: the number of elements removed (0 or 1), and the map left.\<close>

fun erase :: "'k \<Rightarrow> ('k, 'v) hash_map \<Rightarrow> nat \<times> ('k, 'v) hash_map" where
  "erase key [] = (0, [])"
| "erase key ((k, v) # m) =
     (if k = key then (1, m) else (case erase key m of (n, m') \<Rightarrow> (n, (k, v) # m')))"

definition map_get :: "'k \<Rightarrow> ('k, 'v) hash_map \<Rightarrow> 'v option" where
  "map_get key m = map_of m key"

definition map_set :: "'k \<Rightarrow> 'v \<Rightarrow> ('k, 'v) hash_map \<Rightarrow> ('k, 'v) hash_map" where
  "map_set key v m = insert_or_assign key v m"

definition map_remove :: "'k \<Rightarrow> ('k, 'v) hash_map \<Rightarrow> bool \<times> ('k, 'v) hash_map" where
  "map_remove key m = (case erase key m of (n, m') \<Rightarrow> (n > 0, m'))"

definition map_keys :: "('k, 'v) hash_map \<Rightarrow> 'k list" where
  "map_keys m = map fst m"

definition map_size :: "('k, 'v) hash_map \<Rightarrow> nat" where
  "map_size m = length m"

text \<open>
  \<open>for_each\<close> calls the callback on every element in iteration order. The callback of
  the source works by side effect (it captures a vector by reference and reads the
  clock), so here it is a function on a state \<open>'s\<close>.
\<close>

fun for_each :: "('k \<Rightarrow> 'v \<Rightarrow> 's \<Rightarrow> 's) \<Rightarrow> ('k, 'v) hash_map \<Rightarrow> 's \<Rightarrow> 's" where
  "for_each callback [] s = s"
| "for_each callback ((key, v) # rest) s = for_each callback rest (callback key v s)"

text \<open>
  The loop of \<open>remove_if\<close>: \<open>kept\<close> is the part of the map before the iterator, the
  list argument the part from the iterator on. The predicate may read the clock, so it
  threads a state as the callback of \<open>for_each\<close> does.
\<close>

fun remove_if_loop ::
  "('k \<Rightarrow> 'v \<Rightarrow> 's \<Rightarrow> bool \<times> 's) \<Rightarrow> ('k, 'v) hash_map \<Rightarrow> ('k, 'v) hash_map \<Rightarrow> nat \<Rightarrow> 's
     \<Rightarrow> nat \<times> ('k, 'v) hash_map \<times> 's" where
  "remove_if_loop predicate kept [] removed_count s = (removed_count, kept, s)"
| "remove_if_loop predicate kept ((key, v) # rest) removed_count s =
     (case predicate key v s of
        (True, s') \<Rightarrow> remove_if_loop predicate kept rest (removed_count + 1) s'
      | (False, s') \<Rightarrow> remove_if_loop predicate (kept @ [(key, v)]) rest removed_count s')"

definition remove_if ::
  "('k \<Rightarrow> 'v \<Rightarrow> 's \<Rightarrow> bool \<times> 's) \<Rightarrow> ('k, 'v) hash_map \<Rightarrow> 's \<Rightarrow> nat \<times> ('k, 'v) hash_map \<times> 's" where
  "remove_if predicate m s = remove_if_loop predicate [] m 0 s"

text \<open>
  The answers the predicate gives along one traversal, in iteration order; the state it
  threads makes an answer depend on the entries before.
\<close>

fun verdicts :: "('k \<Rightarrow> 'v \<Rightarrow> 's \<Rightarrow> bool \<times> 's) \<Rightarrow> ('k, 'v) hash_map \<Rightarrow> 's \<Rightarrow> bool list" where
  "verdicts predicate [] s = []"
| "verdicts predicate ((key, v) # rest) s =
     (case predicate key v s of (b, s') \<Rightarrow> b # verdicts predicate rest s')"

definition stateless :: "('k \<Rightarrow> 'v \<Rightarrow> bool) \<Rightarrow> 'k \<Rightarrow> 'v \<Rightarrow> 's \<Rightarrow> bool \<times> 's" where
  "stateless P key v s = (P key v, s)"

section \<open>KeyValueStore\<close>

text \<open>
  The world a \<open>KeyValueStore\<close> method runs in: the member \<open>store_\<close> (field
  \<open>store\<close>), the number of clock readings taken so far, and the lines handed to
  \<open>Logger\<close> (without the wall-clock stamp that \<open>Logger::log\<close> prints in front). The
  methods are taken one at a time: \<open>get\<close> reads the entry, tests it and removes the key
  with no other call in between.
\<close>

record world =
  store :: "(string, StoreEntry) hash_map"
  reads :: nat
  log_out :: "log_line list"

definition now :: "clock \<Rightarrow> world \<Rightarrow> time_point \<times> world" where
  "now clk w = (clk (reads w), w\<lparr>reads := Suc (reads w)\<rparr>)"

definition logger :: "LogLevel \<Rightarrow> string \<Rightarrow> world \<Rightarrow> world" where
  "logger level message w = w\<lparr>log_out := log_out w @ [(level, message)]\<rparr>"

definition is_expired :: "clock \<Rightarrow> StoreEntry \<Rightarrow> world \<Rightarrow> bool \<times> world" where
  "is_expired clk entry w =
     (case expires_at entry of
        None \<Rightarrow> (False, w)
      | Some e \<Rightarrow> (case now clk w of (t, w') \<Rightarrow> (t \<ge> e, w')))"

definition calculate_expiry :: "clock \<Rightarrow> int \<Rightarrow> world \<Rightarrow> time_point option \<times> world" where
  "calculate_expiry clk ttl_seconds w =
     (if ttl_seconds \<le> 0 then (None, w)
      else (case now clk w of (t, w') \<Rightarrow> (Some (wrap64 (t + seconds ttl_seconds)), w')))"

definition kv_get :: "clock \<Rightarrow> string \<Rightarrow> world \<Rightarrow> string option \<times> world" where
  "kv_get clk key w =
     (case map_get key (store w) of
        None \<Rightarrow> (None, w)
      | Some entry \<Rightarrow>
          (case is_expired clk entry w of
             (True, w1) \<Rightarrow>
               (None, logger INFO (''Key '' @ [quote] @ key @ [quote] @ '' expired (lazy deletion)'')
                        (w1\<lparr>store := snd (map_remove key (store w1))\<rparr>))
           | (False, w1) \<Rightarrow> (Some (entry_value entry), w1)))"

definition kv_set :: "clock \<Rightarrow> string \<Rightarrow> string \<Rightarrow> int \<Rightarrow> world \<Rightarrow> world" where
  "kv_set clk key v ttl_seconds w =
     (case calculate_expiry clk ttl_seconds w of
        (ex, w1) \<Rightarrow>
          (let entry = \<lparr>entry_value = v, expires_at = ex\<rparr>;
               w2 = w1\<lparr>store := map_set key entry (store w1)\<rparr>
           in if ttl_seconds > 0
              then logger INFO (''SET '' @ [quote] @ key @ [quote] @ '' (TTL: ''
                                 @ to_string ttl_seconds @ ''s)'') w2
              else logger INFO (''SET '' @ [quote] @ key @ [quote] @ '' (no expiry)'') w2))"

definition kv_remove :: "string \<Rightarrow> world \<Rightarrow> bool \<times> world" where
  "kv_remove key w =
     (case map_remove key (store w) of
        (removed, m') \<Rightarrow>
          (removed,
           logger INFO
             (''DEL '' @ [quote] @ key @ [quote]
                @ '' '' @ em_dash @ (if removed then '' removed'' else '' key not found''))
             (w\<lparr>store := m'\<rparr>)))"

text \<open>
  The callback of \<open>keys\<close>: its state is the result vector together with the world, in
  which \<open>is_expired\<close> reads the clock.
\<close>

definition keys_callback ::
  "clock \<Rightarrow> string \<Rightarrow> StoreEntry \<Rightarrow> string list \<times> world \<Rightarrow> string list \<times> world" where
  "keys_callback clk key entry s =
     (case s of (result, w) \<Rightarrow>
        (case is_expired clk entry w of
           (True, w') \<Rightarrow> (result, w')
         | (False, w') \<Rightarrow> (result @ [key], w')))"

definition kv_keys :: "clock \<Rightarrow> world \<Rightarrow> string list \<times> world" where
  "kv_keys clk w = for_each (keys_callback clk) (store w) ([], w)"

definition cleanup_expired :: "clock \<Rightarrow> world \<Rightarrow> nat \<times> world" where
  "cleanup_expired clk w =
     (case remove_if (\<lambda>key entry. is_expired clk entry) (store w) w of
        (count, m', w1) \<Rightarrow>
          (let w2 = w1\<lparr>store := m'\<rparr>
           in (count,
               if count > 0
               then logger INFO (''Cleanup: removed '' @ to_string (int count) @ '' expired entries'') w2
               else w2)))"

text \<open>
  Two notions used to state what the store does. \<open>expired_at t entry\<close> is the test
  "\<open>now >= expires_at\<close>" at a given reading \<open>t\<close>. \<open>inspected n m\<close> pairs every entry
  of a traversal of \<open>m\<close> that starts at clock reading number \<open>n\<close> with the number of
  the reading that is current when the entry is looked at: an entry with an expiry
  takes one reading, an entry without takes none.
\<close>

definition expired_at :: "time_point \<Rightarrow> StoreEntry \<Rightarrow> bool" where
  "expired_at t entry = (case expires_at entry of None \<Rightarrow> False | Some e \<Rightarrow> e \<le> t)"

definition has_ttl :: "string \<times> StoreEntry \<Rightarrow> bool" where
  "has_ttl p = (expires_at (snd p) \<noteq> None)"

fun inspected :: "nat \<Rightarrow> (string, StoreEntry) hash_map \<Rightarrow> (string \<times> StoreEntry \<times> nat) list" where
  "inspected n [] = []"
| "inspected n ((key, entry) # m) =
     (key, entry, n) # inspected (if expires_at entry = None then n else Suc n) m"

definition live_at_inspection :: "clock \<Rightarrow> string \<times> StoreEntry \<times> nat \<Rightarrow> bool" where
  "live_at_inspection clk p = (case p of (key, entry, i) \<Rightarrow> \<not> expired_at (clk i) entry)"

text \<open>
  The reading of the claim "one single now reading taken before the scan": every entry
  is judged against the same time point \<open>t\<close>.
\<close>

definition sweep_single_now :: "time_point \<Rightarrow> (string, StoreEntry) hash_map \<Rightarrow> nat \<times> (string, StoreEntry) hash_map" where
  "sweep_single_now t m =
     (length (filter (\<lambda>p. expired_at t (snd p)) m), filter (\<lambda>p. \<not> expired_at t (snd p)) m)"

text \<open>
  Requests a client or the sweeper can make of the store, to speak about what happens
  to a key over any later history.
\<close>

datatype request = GET string | SET string string int | DELETE string | LIST | SWEEP

fun serve :: "clock \<Rightarrow> request \<Rightarrow> world \<Rightarrow> world" where
  "serve clk (GET key) w = snd (kv_get clk key w)"
| "serve clk (SET key v ttl_seconds) w = kv_set clk key v ttl_seconds w"
| "serve clk (DELETE key) w = snd (kv_remove key w)"
| "serve clk LIST w = snd (kv_keys clk w)"
| "serve clk SWEEP w = snd (cleanup_expired clk w)"

fun serve_all :: "clock \<Rightarrow> request list \<Rightarrow> world \<Rightarrow> world" where
  "serve_all clk [] w = w"
| "serve_all clk (r # rs) w = serve_all clk rs (serve clk r w)"

fun writes_key :: "string \<Rightarrow> request \<Rightarrow> bool" where
  "writes_key key (SET k v ttl_seconds) = (k = key)"
| "writes_key key (DELETE k) = (k = key)"
| "writes_key key r = False"

section \<open>ExpiryManager\<close>












section \<open>TcpServer\<close>

text \<open>
  What \<open>TcpServer::start\<close> does to the outside, in order: system calls on the listening
  socket, lines handed to \<open>Logger\<close>, and tasks submitted to the thread pool (one per
  accepted connection, named by the descriptor of the client socket). The operating
  system is an input: the results of \<open>socket\<close>, \<open>setsockopt\<close>, \<open>bind\<close> and \<open>listen\<close>, and
  for each turn of the accept loop the value of \<open>stop_requested_\<close> read at its head
  (other threads set it) with the result of \<open>accept\<close>.
\<close>

datatype event =
    SOCKET | SETSOCKOPT | BIND int | LISTEN int | ACCEPT | CLOSE
  | LOG LogLevel string | SUBMIT int

record os =
  socket_result :: int
  setsockopt_result :: int
  bind_result :: int
  listen_result :: int

text \<open>
  The accept loop. It ends when the stop flag is read as set; when the turns given run
  out before that, the loop is still running: \<open>None\<close>.
\<close>

fun accept_loop :: "(bool \<times> int) list \<Rightarrow> event list option" where
  "accept_loop [] = None"
| "accept_loop ((stop, client_fd) # turns) =
     (if stop then Some []
      else if client_fd < 0
      then map_option (\<lambda>tr. [ACCEPT, LOG ERROR ''Failed to accept connection''] @ tr) (accept_loop turns)
      else map_option (\<lambda>tr. [ACCEPT, SUBMIT client_fd] @ tr) (accept_loop turns))"

text \<open>
  \<open>start\<close>, with \<open>Socket::create_tcp\<close>, \<open>bind_to\<close> and \<open>start_listening\<close> written in
  place. The listening socket is closed by its destructor when \<open>start\<close> returns.
\<close>

definition tcp_start :: "int \<Rightarrow> os \<Rightarrow> (bool \<times> int) list \<Rightarrow> event list option" where
  "tcp_start port env turns =
     (if socket_result env < 0
      then Some [SOCKET, LOG ERROR ''Failed to create TCP socket'',
                 LOG ERROR ''Failed to create server socket'']
      else
        (let created = [SOCKET, SETSOCKOPT]
               @ (if setsockopt_result env < 0 then [LOG WARNING ''Failed to set SO_REUSEADDR''] else [])
         in if bind_result env < 0
            then Some (created @ [BIND port,
                         LOG ERROR (''Failed to bind to port '' @ to_string port),
                         LOG ERROR (''Failed to bind to port '' @ to_string port), CLOSE])
            else
              (let bound = created @ [BIND port, LOG INFO (''Socket bound to port '' @ to_string port)]
               in if listen_result env < 0
                  then Some (bound @ [LISTEN 128, LOG ERROR ''Failed to start listening'',
                               LOG ERROR ''Failed to start listening'', CLOSE])
                  else
                    map_option
                      (\<lambda>tr. bound @ [LISTEN 128,
                                LOG INFO (''Mini Redis server listening on port '' @ to_string port)]
                              @ tr @ [LOG INFO ''Server accept loop stopped'', CLOSE])
                      (accept_loop turns))))"

definition setup_failed :: "os \<Rightarrow> bool" where
  "setup_failed env = (socket_result env < 0 \<or> bind_result env < 0 \<or> listen_result env < 0)"




section \<open>Concrete inputs\<close>

text \<open>A clock whose readings are 4, 5, 6, ... ticks.\<close>

definition tick_clock :: clock where
  "tick_clock n = 4 + int n"

text \<open>A clock that stands at the last tick a signed 64-bit count can hold.\<close>

definition last_tick_clock :: clock where
  "last_tick_clock n = 9223372036854775807"

definition entry_no_ttl :: "string \<Rightarrow> StoreEntry" where
  "entry_no_ttl v = \<lparr>entry_value = v, expires_at = None\<rparr>"

definition entry_until :: "string \<Rightarrow> time_point \<Rightarrow> StoreEntry" where
  "entry_until v t = \<lparr>entry_value = v, expires_at = Some t\<rparr>"

definition empty_world :: world where
  "empty_world = \<lparr>store = [], reads = 0, log_out = []\<rparr>"

definition two_at_five :: world where
  "two_at_five =
     \<lparr>store = [(''a'', entry_until ''x'' 5), (''b'', entry_until ''y'' 5)], reads = 0, log_out = []\<rparr>"

definition mixed_world :: world where
  "mixed_world =
     \<lparr>store = [(''permanent'', entry_no_ttl ''stays forever''),
               (''temporary'', entry_until ''goes away'' 3),
               (''fresh'', entry_until ''new'' 100)],
      reads = 0, log_out = []\<rparr>"

definition perm_temp_world :: world where
  "perm_temp_world =
     \<lparr>store = [(''permanent'', entry_no_ttl ''stays forever''),
               (''temporary'', entry_until ''goes away'' 3)],
      reads = 0, log_out = []\<rparr>"

definition perm_two_at_five :: world where
  "perm_two_at_five =
     \<lparr>store = [(''permanent'', entry_no_ttl ''stays forever''),
               (''a'', entry_until ''x'' 5), (''b'', entry_until ''y'' 5)],
      reads = 0, log_out = []\<rparr>"



section \<open>The hash map: lookups, key sets and sizes\<close>

lemma map_of_insert_or_assign:
  "map_of (insert_or_assign key v m) = (map_of m)(key \<mapsto> v)"
  by (induction m) (auto simp: fun_eq_iff)

lemma keys_insert_or_assign:
  "map fst (insert_or_assign key v m) =
     (if key \<in> set (map fst m) then map fst m else map fst m @ [key])"
  by (induction m) force+

lemma unique_keys_insert_or_assign:
  "unique_keys m \<Longrightarrow> unique_keys (insert_or_assign key v m)"
  by (simp add: unique_keys_def keys_insert_or_assign)

lemma length_insert_or_assign:
  "length (insert_or_assign key v m) = (if map_of m key = None then Suc (length m) else length m)"
  by (induction m) auto

lemma fst_erase: "fst (erase key m) = (if map_of m key = None then 0 else 1)"
  by (induction m) (auto split: prod.splits)

lemma keys_erase: "map fst (snd (erase key m)) = remove1 key (map fst m)"
  by (induction m) (auto split: prod.splits)

lemma unique_keys_erase: "unique_keys m \<Longrightarrow> unique_keys (snd (erase key m))"
  by (simp add: unique_keys_def keys_erase)

lemma map_of_erase:
  "unique_keys m \<Longrightarrow> map_of (snd (erase key m)) = (map_of m)(key := None)"
  unfolding unique_keys_def
proof (induction m)
  case Nil
  then show ?case by simp
next
  case (Cons p m)
  obtain k v where p: "p = (k, v)" by (cases p)
  show ?case
  proof (cases "k = key")
    case True
    with Cons.prems p have "key \<notin> fst ` set m" by auto
    then have "map_of m key = None" by (simp add: map_of_eq_None_iff)
    with True p show ?thesis by (auto simp: fun_eq_iff)
  next
    case False
    with Cons p show ?thesis by (auto simp: fun_eq_iff split: prod.splits)
  qed
qed

lemma length_erase: "length (snd (erase key m)) + fst (erase key m) = length m"
  by (induction m) (auto split: prod.splits)

lemma remove_if_loop_acc:
  "remove_if_loop p kept rest c s =
     (case remove_if_loop p [] rest 0 s of (c', kept', s') \<Rightarrow> (c + c', kept @ kept', s'))"
proof (induction rest arbitrary: kept c s)
  case Nil
  then show ?case by simp
next
  case (Cons x rest)
  obtain k v where x: "x = (k, v)" by (cases x)
  obtain b s1 where b: "p k v s = (b, s1)" by (cases "p k v s")
  show ?case
  proof (cases b)
    case True
    then show ?thesis
      using x b Cons.IH [of kept "c + 1" s1] Cons.IH [of "[]" 1 s1]
      by (simp split: prod.splits)
  next
    case False
    then show ?thesis
      using x b Cons.IH [of "kept @ [(k, v)]" c s1] Cons.IH [of "[(k, v)]" 0 s1]
      by (simp split: prod.splits)
  qed
qed



lemma remove_if_Nil: "remove_if p [] s = (0, [], s)"
  by (simp add: remove_if_def)

lemma remove_if_Cons:
  "remove_if p ((k, v) # m) s =
     (case p k v s of (b, s') \<Rightarrow>
        (case remove_if p m s' of (c, m', s'') \<Rightarrow>
           if b then (Suc c, m', s'') else (c, (k, v) # m', s'')))"
proof -
  obtain b s1 where b: "p k v s = (b, s1)" by (cases "p k v s")
  show ?thesis
  proof (cases b)
    case True
    then show ?thesis
      using b remove_if_loop_acc [of p "[]" m 1 s1]
      by (simp add: remove_if_def split: prod.splits)
  next
    case False
    then show ?thesis
      using b remove_if_loop_acc [of p "[(k, v)]" m 0 s1]
      by (simp add: remove_if_def split: prod.splits)
  qed
qed

lemma remove_if_verdicts:
  "remove_if p m s =
     (length (filter (\<lambda>b. b) (verdicts p m s)),
      map fst (filter (\<lambda>x. \<not> snd x) (zip m (verdicts p m s))),
      snd (snd (remove_if p m s)))"
proof (induction m arbitrary: s)
  case Nil
  then show ?case by (simp add: remove_if_Nil)
next
  case (Cons x m)
  obtain k v where x: "x = (k, v)" by (cases x)
  obtain b s1 where b: "p k v s = (b, s1)" by (cases "p k v s")
  obtain c m' s2 where r: "remove_if p m s1 = (c, m', s2)" by (cases "remove_if p m s1")
  from Cons.IH [of s1] r have "c = length (filter (\<lambda>b. b) (verdicts p m s1))"
    and "m' = map fst (filter (\<lambda>x. \<not> snd x) (zip m (verdicts p m s1)))"
    by simp_all
  with x b r show ?case
    by (simp add: remove_if_Cons)
qed

lemma verdicts_length: "length (verdicts p m s) = length m"
  by (induction m arbitrary: s) (auto split: prod.splits)

lemma verdicts_stateless: "verdicts (stateless P) m s = map (\<lambda>(k, v). P k v) m"
  by (induction m arbitrary: s) (auto simp: stateless_def)

lemma remove_if_count: "fst (remove_if p m s) + length (fst (snd (remove_if p m s))) = length m"
proof (induction m arbitrary: s)
  case Nil
  then show ?case by (simp add: remove_if_Nil)
next
  case (Cons x m)
  obtain k v where x: "x = (k, v)" by (cases x)
  obtain b s1 where b: "p k v s = (b, s1)" by (cases "p k v s")
  obtain c m' s2 where r: "remove_if p m s1 = (c, m', s2)" by (cases "remove_if p m s1")
  show ?case
    using Cons.IH [of s1] x b r
    by (cases b) (simp_all add: remove_if_Cons)
qed

lemma remove_if_subseq: "subseq (fst (snd (remove_if p m s))) m"
proof (induction m arbitrary: s)
  case Nil
  then show ?case by (simp add: remove_if_Nil)
next
  case (Cons x m)
  obtain k v where x: "x = (k, v)" by (cases x)
  obtain b s1 where b: "p k v s = (b, s1)" by (cases "p k v s")
  obtain c m' s2 where r: "remove_if p m s1 = (c, m', s2)" by (cases "remove_if p m s1")
  show ?case
    using Cons.IH [of s1] x b r
    by (cases b) (auto simp: remove_if_Cons)
qed

lemma remove_if_stateless:
  "remove_if (stateless P) m s =
     (length (filter (\<lambda>(k, v). P k v) m), filter (\<lambda>(k, v). \<not> P k v) m, s)"
  by (induction m) (auto simp: remove_if_Nil remove_if_Cons stateless_def)

text \<open>
  Claim C10. For every map and every predicate, \<open>remove_if\<close> returns the size of the map
  before the call minus its size after it. The entries removed are those the predicate
  answered true for, the others stay as they were and in their order. For a predicate
  that depends on the entry alone, the map left is the entries that do not satisfy it;
  a predicate that is false on every entry gives the count 0 and the same map.
\<close>

theorem remove_if_count_and_contents:
  "fst (remove_if predicate m s) + map_size (fst (snd (remove_if predicate m s))) = map_size m \<and>
   fst (remove_if predicate m s) = map_size m - map_size (fst (snd (remove_if predicate m s))) \<and>
   fst (remove_if predicate m s) = length (filter (\<lambda>b. b) (verdicts predicate m s)) \<and>
   fst (snd (remove_if predicate m s)) =
     map fst (filter (\<lambda>x. \<not> snd x) (zip m (verdicts predicate m s))) \<and>
   subseq (fst (snd (remove_if predicate m s))) m \<and>
   remove_if (stateless P) m s =
     (length (filter (\<lambda>(k, v). P k v) m), filter (\<lambda>(k, v). \<not> P k v) m, s) \<and>
   ((\<forall>(k, v) \<in> set m. \<not> P k v) \<longrightarrow> remove_if (stateless P) m s = (0, m, s))"
proof -
  have count: "fst (remove_if predicate m s) + length (fst (snd (remove_if predicate m s))) = length m"
    by (rule remove_if_count)
  have v: "remove_if predicate m s =
     (length (filter (\<lambda>b. b) (verdicts predicate m s)),
      map fst (filter (\<lambda>x. \<not> snd x) (zip m (verdicts predicate m s))),
      snd (snd (remove_if predicate m s)))"
    by (rule remove_if_verdicts)
  have v1: "fst (remove_if predicate m s) = length (filter (\<lambda>b. b) (verdicts predicate m s))"
    using v by (metis fst_conv)
  have v2: "fst (snd (remove_if predicate m s)) =
     map fst (filter (\<lambda>x. \<not> snd x) (zip m (verdicts predicate m s)))"
    using v by (metis fst_conv snd_conv)
  have none: "(\<forall>(k, v) \<in> set m. \<not> P k v) \<longrightarrow> remove_if (stateless P) m s = (0, m, s)"
  proof
    assume a: "\<forall>(k, v) \<in> set m. \<not> P k v"
    then have "filter (\<lambda>(k, v). P k v) m = []" and "filter (\<lambda>(k, v). \<not> P k v) m = m"
      by (auto simp: filter_empty_conv filter_id_conv)
    then show "remove_if (stateless P) m s = (0, m, s)"
      by (simp add: remove_if_stateless)
  qed
  from count v1 v2 none show ?thesis
    using remove_if_subseq [of predicate m s] remove_if_stateless [of P m s]
    by (simp add: map_size_def)
qed


theorem remove_if_count_and_contents_witness:
  "\<not> 10 < (2::nat) \<and> \<not> 10 < (4::nat) \<and>
   remove_if (stateless (\<lambda>k v. 10 < v)) [(1::nat, 2::nat), (3, 4)] () = (0, [(1, 2), (3, 4)], ())"
  using remove_if_count_and_contents
    [where P = "\<lambda>(k::nat) (v::nat). 10 < v" and m = "[(1, 2), (3, 4)]" and s = "()"]
  by simp

section \<open>The store\<close>

lemma is_expired_eq:
  "is_expired clk entry w =
     (expired_at (clk (reads w)) entry,
      if expires_at entry = None then w else w\<lparr>reads := Suc (reads w)\<rparr>)"
  by (simp add: is_expired_def expired_at_def now_def split: option.splits)

lemma map_remove_eq: "map_remove key m = (map_of m key \<noteq> None, snd (erase key m))"
  using fst_erase [of key m]
  by (cases "erase key m") (auto simp: map_remove_def)

text \<open>
  Claim C1. \<open>get(k)\<close> returns none when no entry for \<open>k\<close> is present, leaving the store
  as it is. When an entry is present and the clock reading that \<open>get\<close> takes is at or
  after its \<open>expires_at\<close>, \<open>get\<close> returns none and the key is gone from the map
  afterwards, every other key being kept. Otherwise \<open>get\<close> returns the stored value
  and the map is unchanged.
\<close>

theorem kv_get_lazy_deletion:
  "unique_keys (store w) \<Longrightarrow>
   (map_get key (store w) = None \<longrightarrow> kv_get clk key w = (None, w)) \<and>
   (\<forall>entry. map_get key (store w) = Some entry \<and> expired_at (clk (reads w)) entry \<longrightarrow>
      fst (kv_get clk key w) = None \<and>
      map_get key (store (snd (kv_get clk key w))) = None \<and>
      (\<forall>k. k \<noteq> key \<longrightarrow> map_get k (store (snd (kv_get clk key w))) = map_get k (store w))) \<and>
   (\<forall>entry. map_get key (store w) = Some entry \<and> \<not> expired_at (clk (reads w)) entry \<longrightarrow>
      fst (kv_get clk key w) = Some (entry_value entry) \<and>
      store (snd (kv_get clk key w)) = store w)"
  by (auto simp: kv_get_def is_expired_eq map_remove_eq map_of_erase logger_def map_get_def
           split: option.splits)

theorem kv_get_lazy_deletion_witness:
  "unique_keys (store mixed_world) \<and>
   kv_get tick_clock ''absent'' mixed_world = (None, mixed_world) \<and>
   map_get ''temporary'' (store mixed_world) = Some (entry_until ''goes away'' 3) \<and>
   expired_at (tick_clock (reads mixed_world)) (entry_until ''goes away'' 3) \<and>
   fst (kv_get tick_clock ''temporary'' mixed_world) = None \<and>
   map_get ''temporary'' (store (snd (kv_get tick_clock ''temporary'' mixed_world))) = None \<and>
   map_get ''fresh'' (store mixed_world) = Some (entry_until ''new'' 100) \<and>
   \<not> expired_at (tick_clock (reads mixed_world)) (entry_until ''new'' 100) \<and>
   fst (kv_get tick_clock ''fresh'' mixed_world) = Some ''new''"
  using kv_get_lazy_deletion [of mixed_world "''absent''" tick_clock]
    kv_get_lazy_deletion [of mixed_world "''temporary''" tick_clock]
    kv_get_lazy_deletion [of mixed_world "''fresh''" tick_clock]
  by (simp add: mixed_world_def unique_keys_def map_get_def expired_at_def entry_until_def
        entry_no_ttl_def tick_clock_def)

lemma remove_if_is_expired:
  "remove_if (\<lambda>key entry. is_expired clk entry) m w =
     (length (filter (\<lambda>p. \<not> live_at_inspection clk p) (inspected (reads w) m)),
      map (\<lambda>(k, e, i). (k, e)) (filter (live_at_inspection clk) (inspected (reads w) m)),
      w\<lparr>reads := reads w + length (filter has_ttl m)\<rparr>)"
proof (induction m arbitrary: w)
  case Nil
  then show ?case by (simp add: remove_if_Nil)
next
  case (Cons x m)
  obtain k e where x: "x = (k, e)" by (cases x)
  show ?case
  proof (cases "expires_at e")
    case None
    then show ?thesis
      using x Cons.IH [of w]
      by (simp add: remove_if_Cons is_expired_eq live_at_inspection_def expired_at_def has_ttl_def)
  next
    case (Some t)
    then show ?thesis
      using x Cons.IH [of "w\<lparr>reads := Suc (reads w)\<rparr>"]
      by (simp add: remove_if_Cons is_expired_eq live_at_inspection_def expired_at_def has_ttl_def)
  qed
qed

lemma for_each_keys_callback:
  "for_each (keys_callback clk) m (acc, w) =
     (acc @ map fst (filter (live_at_inspection clk) (inspected (reads w) m)),
      w\<lparr>reads := reads w + length (filter has_ttl m)\<rparr>)"
proof (induction m arbitrary: acc w)
  case Nil
  then show ?case by simp
next
  case (Cons x m)
  obtain k e where x: "x = (k, e)" by (cases x)
  show ?case
  proof (cases "expires_at e")
    case None
    then show ?thesis
      using x Cons.IH [of "acc @ [k]" w]
      by (simp add: keys_callback_def is_expired_eq live_at_inspection_def expired_at_def has_ttl_def)
  next
    case (Some t)
    then show ?thesis
      using x Cons.IH [of "acc @ [k]" "w\<lparr>reads := Suc (reads w)\<rparr>"]
        Cons.IH [of acc "w\<lparr>reads := Suc (reads w)\<rparr>"]
      by (simp add: keys_callback_def is_expired_eq live_at_inspection_def expired_at_def has_ttl_def)
  qed
qed

lemma cleanup_expired_eq:
  "fst (cleanup_expired clk w) =
     length (filter (\<lambda>p. \<not> live_at_inspection clk p) (inspected (reads w) (store w)))"
  "store (snd (cleanup_expired clk w)) =
     map (\<lambda>(k, e, i). (k, e)) (filter (live_at_inspection clk) (inspected (reads w) (store w)))"
  "reads (snd (cleanup_expired clk w)) = reads w + length (filter has_ttl (store w))"
  by (simp_all add: cleanup_expired_def remove_if_is_expired logger_def Let_def)

text \<open>
  Claim C6. \<open>keys()\<close> returns, in iteration order, the keys of the entries that are not
  expired at the clock reading current when the entry is inspected, and deletes
  nothing: the map after the call is the map before it, also when expired entries
  were met. Only the count of clock readings moves, by one per entry with an expiry.
\<close>

theorem kv_keys_read_only:
  "fst (kv_keys clk w) =
     map fst (filter (live_at_inspection clk) (inspected (reads w) (store w))) \<and>
   store (snd (kv_keys clk w)) = store w \<and>
   snd (kv_keys clk w) = w\<lparr>reads := reads w + length (filter has_ttl (store w))\<rparr>"
  by (simp add: kv_keys_def for_each_keys_callback)

text \<open>
  Claim C2, as amended. \<open>cleanup_expired()\<close> removes every entry whose \<open>expires_at\<close> is
  at or before the clock reading taken when that entry is inspected during the scan
  (\<open>is_expired\<close> reads the clock once for each entry that has an expiry), keeps every
  other entry, and returns the number of entries removed.
\<close>

theorem cleanup_expired_per_entry:
  "fst (cleanup_expired clk w) =
     length (filter (\<lambda>p. \<not> live_at_inspection clk p) (inspected (reads w) (store w))) \<and>
   store (snd (cleanup_expired clk w)) =
     map (\<lambda>(k, e, i). (k, e)) (filter (live_at_inspection clk) (inspected (reads w) (store w))) \<and>
   fst (cleanup_expired clk w) + map_size (store (snd (cleanup_expired clk w))) = map_size (store w)"
proof -
  have "length (inspected n m) = length m" for n m
    by (induction m arbitrary: n) auto
  then have "length (filter (\<lambda>p. \<not> live_at_inspection clk p) (inspected (reads w) (store w)))
      + length (filter (live_at_inspection clk) (inspected (reads w) (store w))) = length (store w)"
    using sum_length_filter_compl [of "live_at_inspection clk" "inspected (reads w) (store w)"]
    by simp
  then show ?thesis
    by (simp add: cleanup_expired_eq map_size_def)
qed

text \<open>
  Claim C2 as stated fails. On a clock that reads 4 and then 5, two entries that both
  expire at 5 are judged differently: the first, inspected at 4, stays, the second,
  inspected at 5, is removed. With the one reading taken before the scan (4) for both,
  neither would be removed.
\<close>

theorem cleanup_expired_single_now_counterexample:
  "mono tick_clock \<and>
   (fst (cleanup_expired tick_clock two_at_five), store (snd (cleanup_expired tick_clock two_at_five)))
     = (1, [(''a'', entry_until ''x'' 5)]) \<and>
   sweep_single_now (tick_clock (reads two_at_five)) (store two_at_five) = (0, store two_at_five) \<and>
   (fst (cleanup_expired tick_clock two_at_five), store (snd (cleanup_expired tick_clock two_at_five)))
     \<noteq> sweep_single_now (tick_clock (reads two_at_five)) (store two_at_five)"
  by (simp add: mono_def tick_clock_def cleanup_expired_eq two_at_five_def entry_until_def
        live_at_inspection_def expired_at_def sweep_single_now_def)


lemma inspected_entries: "map (\<lambda>(k, e, i). (k, e)) (inspected n m) = m"
  by (induction m arbitrary: n) auto

lemma inspected_index:
  "(k, e, i) \<in> set (inspected n m) \<Longrightarrow> n \<le> i \<and> i \<le> n + length (filter has_ttl m)"
proof (induction m arbitrary: n)
  case Nil
  then show ?case by simp
next
  case (Cons x m)
  obtain k' e' where x: "x = (k', e')" by (cases x)
  from Cons.prems x consider "(k, e, i) = (k', e', n)"
    | "(k, e, i) \<in> set (inspected (if expires_at e' = None then n else Suc n) m)"
    by auto
  then show ?case
  proof cases
    case 1
    then show ?thesis by simp
  next
    case 2
    from Cons.IH [OF 2] x show ?thesis
      by (auto simp: has_ttl_def split: if_splits)
  qed
qed

lemma expired_at_mono: "expired_at t e \<Longrightarrow> t \<le> t' \<Longrightarrow> expired_at t' e"
  by (auto simp: expired_at_def split: option.splits)

lemma cleanup_expired_store:
  "store (snd (cleanup_expired clk w)) =
     fst (snd (remove_if (\<lambda>key entry. is_expired clk entry) (store w) w))"
  by (simp add: cleanup_expired_def logger_def Let_def split: prod.splits)

lemma cleanup_expired_fst:
  "fst (cleanup_expired clk w) = fst (remove_if (\<lambda>key entry. is_expired clk entry) (store w) w)"
  by (simp add: cleanup_expired_def Let_def split: prod.splits)

lemma cleanup_expired_count:
  "fst (cleanup_expired clk w) + map_size (store (snd (cleanup_expired clk w))) = map_size (store w)"
  by (simp only: cleanup_expired_fst cleanup_expired_store map_size_def remove_if_count)

lemma kv_get_no_ttl:
  "map_of (store w) key = Some e \<Longrightarrow> expires_at e = None \<Longrightarrow>
     kv_get clk key w = (Some (entry_value e), w)"
  by (simp add: kv_get_def map_get_def is_expired_eq expired_at_def)

text \<open>
  Claim C7, as amended. \<open>cleanup_expired()\<close> removes exactly the entries that have
  expired at the clock reading taken when they are inspected, and the count returned is
  their number. On a steady clock it therefore removes every entry whose TTL has
  elapsed when the call starts and keeps every entry that has not expired when the
  call is over, an entry whose TTL runs out during the scan being judged at its own
  inspection; what it keeps is a subsequence of the old map, so kept entries have
  their key, value and expiry untouched, and the count returned is the number of
  entries removed. With one permanent key and one key whose TTL has elapsed, in
  either iteration order, the call returns 1, and afterwards \<open>get\<close> finds the
  permanent key at any time and does not find the other.
\<close>

theorem cleanup_expired_removes_exactly_elapsed:
  assumes "mono clk"
  shows
  "store (snd (cleanup_expired clk w)) =
     map (\<lambda>(k, e, i). (k, e)) (filter (live_at_inspection clk) (inspected (reads w) (store w))) \<and>
   fst (cleanup_expired clk w) =
     length (filter (\<lambda>p. \<not> live_at_inspection clk p) (inspected (reads w) (store w))) \<and>
   (\<forall>p \<in> set (store w). expired_at (clk (reads w)) (snd p) \<longrightarrow>
      p \<notin> set (store (snd (cleanup_expired clk w)))) \<and>
   (\<forall>p \<in> set (store w). \<not> expired_at (clk (reads (snd (cleanup_expired clk w)))) (snd p) \<longrightarrow>
      p \<in> set (store (snd (cleanup_expired clk w)))) \<and>
   subseq (store (snd (cleanup_expired clk w))) (store w) \<and>
   fst (cleanup_expired clk w) + map_size (store (snd (cleanup_expired clk w))) = map_size (store w) \<and>
   (kp \<noteq> kt \<and> x \<le> clk (reads w) \<and>
    store w \<in> {[(kp, \<lparr>entry_value = vp, expires_at = None\<rparr>), (kt, \<lparr>entry_value = vt, expires_at = Some x\<rparr>)],
                [(kt, \<lparr>entry_value = vt, expires_at = Some x\<rparr>), (kp, \<lparr>entry_value = vp, expires_at = None\<rparr>)]} \<longrightarrow>
      fst (cleanup_expired clk w) = 1 \<and>
      fst (kv_get clk' kp (snd (cleanup_expired clk w))) = Some vp \<and>
      fst (kv_get clk' kt (snd (cleanup_expired clk w))) = None)"
proof -
  let ?w' = "snd (cleanup_expired clk w)"
  let ?ins = "inspected (reads w) (store w)"
  have st: "store ?w' = map (\<lambda>(k, e, i). (k, e)) (filter (live_at_inspection clk) ?ins)"
    by (rule cleanup_expired_eq)
  have rd: "reads ?w' = reads w + length (filter has_ttl (store w))"
    by (rule cleanup_expired_eq)
  have nr: "fst (cleanup_expired clk w) =
     length (filter (\<lambda>p. \<not> live_at_inspection clk p) ?ins)"
    by (rule cleanup_expired_eq)
  have gone: "p \<notin> set (store ?w')" if "expired_at (clk (reads w)) (snd p)" for p
  proof
    assume "p \<in> set (store ?w')"
    with st obtain k e i where kei: "(k, e, i) \<in> set ?ins" "live_at_inspection clk (k, e, i)"
      and p: "p = (k, e)"
      by auto
    from inspected_index [OF kei(1)] have "reads w \<le> i" by simp
    with assms have "clk (reads w) \<le> clk i" by (simp add: monoD)
    with that p have "expired_at (clk i) e" by (auto intro: expired_at_mono)
    with kei(2) show False by (simp add: live_at_inspection_def)
  qed
  have stays: "p \<in> set (store ?w')"
    if "p \<in> set (store w)" "\<not> expired_at (clk (reads ?w')) (snd p)" for p
  proof -
    from that(1) have "p \<in> set (map (\<lambda>(k, e, i). (k, e)) ?ins)"
      by (simp only: inspected_entries)
    then obtain k e i where kei: "(k, e, i) \<in> set ?ins" and p: "p = (k, e)"
      by auto
    from inspected_index [OF kei] rd have "i \<le> reads ?w'" by simp
    with assms have "clk i \<le> clk (reads ?w')" by (simp add: monoD)
    with that(2) p have "\<not> expired_at (clk i) e" by (auto dest: expired_at_mono)
    then have "live_at_inspection clk (k, e, i)" by (simp add: live_at_inspection_def)
    with kei p st show ?thesis by force
  qed
  have sub: "subseq (store ?w') (store w)"
    by (simp only: cleanup_expired_store remove_if_subseq)
  have cnt: "fst (cleanup_expired clk w) + map_size (store ?w') = map_size (store w)"
    by (rule cleanup_expired_count)
  have scen: "fst (cleanup_expired clk w) = 1 \<and>
      fst (kv_get clk' kp ?w') = Some vp \<and> fst (kv_get clk' kt ?w') = None"
    if "kp \<noteq> kt" "x \<le> clk (reads w)"
      "store w \<in> {[(kp, \<lparr>entry_value = vp, expires_at = None\<rparr>), (kt, \<lparr>entry_value = vt, expires_at = Some x\<rparr>)],
                [(kt, \<lparr>entry_value = vt, expires_at = Some x\<rparr>), (kp, \<lparr>entry_value = vp, expires_at = None\<rparr>)]}"
  proof -
    from that have c: "fst (cleanup_expired clk w) = 1"
      and s: "store ?w' = [(kp, \<lparr>entry_value = vp, expires_at = None\<rparr>)]"
      by (auto simp: cleanup_expired_eq live_at_inspection_def expired_at_def)
    from s have "kv_get clk' kp ?w' = (Some vp, ?w')"
      by (intro kv_get_no_ttl [where e = "\<lparr>entry_value = vp, expires_at = None\<rparr>", simplified]) simp
    moreover from s that(1) have "kv_get clk' kt ?w' = (None, ?w')"
      by (simp add: kv_get_def map_get_def)
    ultimately show ?thesis using c by simp
  qed
  from gone stays sub cnt scen have
    "(\<forall>p \<in> set (store w). expired_at (clk (reads w)) (snd p) \<longrightarrow> p \<notin> set (store ?w'))"
    "(\<forall>p \<in> set (store w). \<not> expired_at (clk (reads ?w')) (snd p) \<longrightarrow> p \<in> set (store ?w'))"
    "subseq (store ?w') (store w)"
    "fst (cleanup_expired clk w) + map_size (store ?w') = map_size (store w)"
    "(kp \<noteq> kt \<and> x \<le> clk (reads w) \<and>
    store w \<in> {[(kp, \<lparr>entry_value = vp, expires_at = None\<rparr>), (kt, \<lparr>entry_value = vt, expires_at = Some x\<rparr>)],
                [(kt, \<lparr>entry_value = vt, expires_at = Some x\<rparr>), (kp, \<lparr>entry_value = vp, expires_at = None\<rparr>)]} \<longrightarrow>
      fst (cleanup_expired clk w) = 1 \<and>
      fst (kv_get clk' kp ?w') = Some vp \<and>
      fst (kv_get clk' kt ?w') = None)"
    by blast+
  with st nr show ?thesis by (intro conjI)
qed

theorem cleanup_expired_removes_exactly_elapsed_witness:
  "mono tick_clock \<and>
   (''temporary'', entry_until ''goes away'' 3) \<in> set (store mixed_world) \<and>
   expired_at (tick_clock (reads mixed_world)) (entry_until ''goes away'' 3) \<and>
   (''temporary'', entry_until ''goes away'' 3) \<notin> set (store (snd (cleanup_expired tick_clock mixed_world))) \<and>
   (''fresh'', entry_until ''new'' 100) \<in> set (store mixed_world) \<and>
   \<not> expired_at (tick_clock (reads (snd (cleanup_expired tick_clock mixed_world)))) (entry_until ''new'' 100) \<and>
   (''fresh'', entry_until ''new'' 100) \<in> set (store (snd (cleanup_expired tick_clock mixed_world))) \<and>
   ''permanent'' \<noteq> ''temporary'' \<and> 3 \<le> tick_clock (reads perm_temp_world) \<and>
   fst (cleanup_expired tick_clock perm_temp_world) = 1 \<and>
   fst (kv_get tick_clock ''permanent'' (snd (cleanup_expired tick_clock perm_temp_world)))
     = Some ''stays forever'' \<and>
   store (snd (cleanup_expired tick_clock perm_two_at_five))
     = [(''permanent'', entry_no_ttl ''stays forever''), (''a'', entry_until ''x'' 5)] \<and>
   fst (cleanup_expired tick_clock perm_two_at_five) = 1"
proof -
  have m: "mono tick_clock"
    by (simp add: mono_def tick_clock_def)
  show ?thesis
    using m
      cleanup_expired_removes_exactly_elapsed [OF m, where w = mixed_world]
      cleanup_expired_removes_exactly_elapsed [OF m, where w = perm_temp_world
        and kp = "''permanent''" and kt = "''temporary''" and x = 3
        and vp = "''stays forever''" and vt = "''goes away''" and clk' = tick_clock]
      cleanup_expired_removes_exactly_elapsed [OF m, where w = perm_two_at_five]
    by (simp add: mixed_world_def perm_temp_world_def perm_two_at_five_def entry_until_def
          entry_no_ttl_def tick_clock_def expired_at_def cleanup_expired_eq has_ttl_def
          live_at_inspection_def)
qed

text \<open>
  Claim C7 as stated fails: the entries removed are not the set of entries whose TTL has
  elapsed as of one time of the call. With a permanent key and two keys that both
  expire at 5, on a clock that reads 4 and then 5 during the scan, one of the two is
  removed and the other kept. As of the reading at the start none has elapsed, as of
  the last reading both have.
\<close>

theorem cleanup_expired_exact_set_counterexample:
  "mono tick_clock \<and>
   (fst (cleanup_expired tick_clock perm_two_at_five),
    store (snd (cleanup_expired tick_clock perm_two_at_five)))
     = (1, [(''permanent'', entry_no_ttl ''stays forever''), (''a'', entry_until ''x'' 5)]) \<and>
   sweep_single_now (tick_clock 0) (store perm_two_at_five) = (0, store perm_two_at_five) \<and>
   sweep_single_now (tick_clock 1) (store perm_two_at_five)
     = (2, [(''permanent'', entry_no_ttl ''stays forever'')]) \<and>
   (fst (cleanup_expired tick_clock perm_two_at_five),
    store (snd (cleanup_expired tick_clock perm_two_at_five)))
     \<noteq> sweep_single_now (tick_clock 0) (store perm_two_at_five) \<and>
   (fst (cleanup_expired tick_clock perm_two_at_five),
    store (snd (cleanup_expired tick_clock perm_two_at_five)))
     \<noteq> sweep_single_now (tick_clock 1) (store perm_two_at_five)"
  by (simp add: mono_def tick_clock_def cleanup_expired_eq perm_two_at_five_def entry_until_def
        entry_no_ttl_def live_at_inspection_def expired_at_def sweep_single_now_def)

section \<open>Writes: set and remove\<close>

lemma map_of_erase_other: "k \<noteq> key \<Longrightarrow> map_of (snd (erase key m)) k = map_of m k"
  by (induction m) (auto split: prod.splits)

lemma erase_absent: "map_of m key = None \<Longrightarrow> erase key m = (0, m)"
  by (induction m) (auto split: prod.splits)

lemma wrap64_fits: "fits_int64 x \<Longrightarrow> wrap64 x = x"
  by (simp add: fits_int64_def wrap64_def)

lemma calculate_expiry_eq:
  "calculate_expiry clk ttl_seconds w =
     (if ttl_seconds \<le> 0 then (None, w)
      else (Some (wrap64 (clk (reads w) + seconds ttl_seconds)), w\<lparr>reads := Suc (reads w)\<rparr>))"
  by (simp add: calculate_expiry_def now_def)

text \<open>
  Out of range the sum wraps: at the last tick of the clock a TTL of one second gives an
  expiry far in the past, and the entry is expired as soon as it is stored.
\<close>

lemma calculate_expiry_wraps:
  "fst (calculate_expiry last_tick_clock 1 empty_world) = Some (- 9223372035854775809) \<and>
   \<not> fits_int64 (last_tick_clock (reads empty_world) + seconds 1) \<and>
   fst (kv_get last_tick_clock ''k'' (kv_set last_tick_clock ''k'' ''v'' 1 empty_world)) = None"
  by (simp add: calculate_expiry_eq last_tick_clock_def empty_world_def seconds_def wrap64_def
        fits_int64_def kv_get_def kv_set_def map_get_def map_set_def is_expired_def now_def
        logger_def Let_def)

lemma store_kv_set:
  "store (kv_set clk key v ttl_seconds w) =
     insert_or_assign key
       \<lparr>entry_value = v,
        expires_at = (if ttl_seconds \<le> 0 then None
                      else Some (wrap64 (clk (reads w) + seconds ttl_seconds)))\<rparr>
       (store w)"
  by (simp add: kv_set_def calculate_expiry_eq map_set_def logger_def Let_def)

lemma store_kv_remove: "store (snd (kv_remove key w)) = snd (erase key (store w))"
  by (simp add: kv_remove_def map_remove_eq logger_def)

lemma fst_kv_remove: "fst (kv_remove key w) = (map_of (store w) key \<noteq> None)"
  by (simp add: kv_remove_def map_remove_eq)

lemma store_kv_get:
  "store (snd (kv_get clk key w)) =
     (case map_of (store w) key of
        None \<Rightarrow> store w
      | Some e \<Rightarrow> if expired_at (clk (reads w)) e then snd (erase key (store w)) else store w)"
  by (simp add: kv_get_def map_get_def is_expired_eq map_remove_eq logger_def split: option.splits)

lemma remove_if_keeps_no_ttl:
  "map_of m key = Some e \<Longrightarrow> expires_at e = None \<Longrightarrow>
     map_of (fst (snd (remove_if (\<lambda>key entry. is_expired clk entry) m w))) key = Some e"
proof (induction m arbitrary: w)
  case Nil
  then show ?case by simp
next
  case (Cons x m)
  obtain k0 e0 where x: "x = (k0, e0)" by (cases x)
  obtain b w1 where ie: "is_expired clk e0 w = (b, w1)"
    by (cases "is_expired clk e0 w")
  obtain c m' w' where r:
    "remove_if (\<lambda>key entry. is_expired clk entry) m w1 = (c, m', w')"
    by (cases "remove_if (\<lambda>key entry. is_expired clk entry) m w1")
  show ?case
  proof (cases "k0 = key")
    case True
    with Cons.prems x have "e0 = e" by simp
    with ie Cons.prems(2) have "\<not> b" by (simp add: is_expired_def)
    with True x ie r \<open>e0 = e\<close> show ?thesis
      by (simp add: remove_if_Cons)
  next
    case False
    with Cons.prems x have "map_of m key = Some e" by simp
    from Cons.IH [OF this Cons.prems(2), of w1] r
    have "map_of m' key = Some e" by simp
    with False x ie r show ?thesis
      by (cases b) (simp_all add: remove_if_Cons)
  qed
qed

lemma serve_keeps_no_ttl:
  assumes "map_of (store w) key = Some e" "expires_at e = None" "\<not> writes_key key r"
  shows "map_of (store (serve clk r w)) key = Some e"
proof (cases r)
  case (GET k)
  show ?thesis
  proof (cases "k = key")
    case True
    with assms GET show ?thesis by (simp add: store_kv_get expired_at_def)
  next
    case False
    with assms GET show ?thesis
      by (simp add: store_kv_get map_of_erase_other split: option.splits)
  qed
next
  case (SET k v t)
  with assms show ?thesis by (simp add: store_kv_set map_of_insert_or_assign)
next
  case (DELETE k)
  with assms show ?thesis by (simp add: store_kv_remove map_of_erase_other)
next
  case LIST
  with assms show ?thesis by (simp add: kv_keys_def for_each_keys_callback)
next
  case SWEEP
  with assms show ?thesis by (simp add: cleanup_expired_store remove_if_keeps_no_ttl)
qed

lemma serve_all_keeps_no_ttl:
  "map_of (store w) key = Some e \<Longrightarrow> expires_at e = None \<Longrightarrow>
     \<forall>r \<in> set rs. \<not> writes_key key r \<Longrightarrow>
     map_of (store (serve_all clk rs w)) key = Some e"
  by (induction rs arbitrary: w) (auto simp: serve_keeps_no_ttl)

text \<open>
  Every request keeps the keys of the map unique, so every store reached from the empty
  one has unique keys.
\<close>

lemma subseq_distinct: "subseq xs ys \<Longrightarrow> distinct ys \<Longrightarrow> distinct xs"
  by (induction rule: list_emb.induct) (auto dest: list_emb_set)

lemma unique_keys_serve:
  assumes "unique_keys (store w)"
  shows "unique_keys (store (serve clk r w))"
proof (cases r)
  case (GET k)
  with assms show ?thesis
    by (simp add: store_kv_get unique_keys_erase split: option.splits)
next
  case (SET k v t)
  with assms show ?thesis by (simp add: store_kv_set unique_keys_insert_or_assign)
next
  case (DELETE k)
  with assms show ?thesis by (simp add: store_kv_remove unique_keys_erase)
next
  case LIST
  with assms show ?thesis by (simp add: kv_keys_def for_each_keys_callback)
next
  case SWEEP
  have "subseq (map fst (store (snd (cleanup_expired clk w)))) (map fst (store w))"
    by (simp only: cleanup_expired_store remove_if_subseq subseq_map)
  with assms SWEEP show ?thesis
    by (auto simp: unique_keys_def intro: subseq_distinct)
qed

lemma unique_keys_reachable: "unique_keys (store (serve_all clk rs empty_world))"
proof -
  have "unique_keys (store w) \<Longrightarrow> unique_keys (store (serve_all clk rs w))" for w
    by (induction rs arbitrary: w) (auto simp: unique_keys_serve)
  then show ?thesis by (simp add: empty_world_def unique_keys_def)
qed

text \<open>
  Claim C3. After \<open>set(k, v, ttl_seconds)\<close> with \<open>ttl_seconds <= 0\<close> the entry for \<open>k\<close>
  has no expiration time, and \<open>get(k)\<close> returns \<open>v\<close> at every later time: at once, and
  after any later requests (reads of any key, listings, sweeps, writes to other keys)
  that do not set or remove \<open>k\<close>, whatever the clock reads. For \<open>ttl_seconds > 0\<close> the
  entry's \<open>expires_at\<close> is the 64-bit sum of the clock reading taken by \<open>set\<close> and
  \<open>ttl_seconds\<close> seconds, which is the reading plus \<open>ttl_seconds\<close> seconds whenever
  that time point is within the range of the clock.
\<close>

theorem kv_set_ttl:
  "(ttl_seconds \<le> 0 \<longrightarrow>
      map_get key (store (kv_set clk key v ttl_seconds w))
        = Some \<lparr>entry_value = v, expires_at = None\<rparr> \<and>
      fst (kv_get clk' key (kv_set clk key v ttl_seconds w)) = Some v \<and>
      ((\<forall>r \<in> set rs. \<not> writes_key key r) \<longrightarrow>
         fst (kv_get clk' key (serve_all clk' rs (kv_set clk key v ttl_seconds w))) = Some v)) \<and>
   (ttl_seconds > 0 \<longrightarrow>
      map_get key (store (kv_set clk key v ttl_seconds w))
        = Some \<lparr>entry_value = v,
                expires_at = Some (wrap64 (clk (reads w) + seconds ttl_seconds))\<rparr>) \<and>
   (ttl_seconds > 0 \<and> fits_int64 (clk (reads w) + seconds ttl_seconds) \<longrightarrow>
      map_get key (store (kv_set clk key v ttl_seconds w))
        = Some \<lparr>entry_value = v, expires_at = Some (clk (reads w) + seconds ttl_seconds)\<rparr>)"
proof -
  let ?e = "\<lparr>entry_value = v, expires_at = None\<rparr>"
  have a: "map_of (store (kv_set clk key v ttl_seconds w)) key = Some ?e" if "ttl_seconds \<le> 0"
    using that by (simp add: store_kv_set map_of_insert_or_assign)
  have b: "fst (kv_get clk' key (kv_set clk key v ttl_seconds w)) = Some v" if "ttl_seconds \<le> 0"
    using kv_get_no_ttl [OF a [OF that]] by simp
  have c: "fst (kv_get clk' key (serve_all clk' rs (kv_set clk key v ttl_seconds w))) = Some v"
    if "ttl_seconds \<le> 0" "\<forall>r \<in> set rs. \<not> writes_key key r"
  proof -
    have "map_of (store (serve_all clk' rs (kv_set clk key v ttl_seconds w))) key = Some ?e"
      using a [OF that(1)] that(2) by (intro serve_all_keeps_no_ttl) simp_all
    from kv_get_no_ttl [OF this] show ?thesis by simp
  qed
  have d: "map_get key (store (kv_set clk key v ttl_seconds w))
        = Some \<lparr>entry_value = v,
                expires_at = Some (wrap64 (clk (reads w) + seconds ttl_seconds))\<rparr>"
    if "ttl_seconds > 0"
    using that by (simp add: store_kv_set map_of_insert_or_assign map_get_def)
  have e: "map_get key (store (kv_set clk key v ttl_seconds w))
        = Some \<lparr>entry_value = v, expires_at = Some (clk (reads w) + seconds ttl_seconds)\<rparr>"
    if "ttl_seconds > 0" "fits_int64 (clk (reads w) + seconds ttl_seconds)"
    using d [OF that(1)] wrap64_fits [OF that(2)] by simp
  from a b c d e show ?thesis by (simp add: map_get_def)
qed

theorem kv_set_ttl_witness:
  "(0::int) \<le> 0 \<and>
   \<not> writes_key ''k'' (GET ''temporary'') \<and> \<not> writes_key ''k'' SWEEP \<and>
   \<not> writes_key ''k'' (SET ''other'' ''z'' 1) \<and> \<not> writes_key ''k'' (DELETE ''fresh'') \<and>
   \<not> writes_key ''k'' LIST \<and>
   fst (kv_get tick_clock ''k''
         (serve_all tick_clock [GET ''temporary'', SWEEP, SET ''other'' ''z'' 1, DELETE ''fresh'', LIST]
            (kv_set tick_clock ''k'' ''v'' 0 mixed_world))) = Some ''v'' \<and>
   (0::int) < 5 \<and> fits_int64 (tick_clock (reads mixed_world) + seconds 5) \<and>
   map_get ''k'' (store (kv_set tick_clock ''k'' ''v'' 5 mixed_world))
     = Some \<lparr>entry_value = ''v'', expires_at = Some (4 + seconds 5)\<rparr>"
proof -
  have f: "fits_int64 (tick_clock (reads mixed_world) + seconds 5)"
    by (simp add: fits_int64_def tick_clock_def mixed_world_def seconds_def)
  have h: "\<forall>r \<in> set [GET ''temporary'', SWEEP, SET ''other'' ''z'' 1, DELETE ''fresh'', LIST].
             \<not> writes_key ''k'' r"
    by simp
  have "fst (kv_get tick_clock ''k''
         (serve_all tick_clock [GET ''temporary'', SWEEP, SET ''other'' ''z'' 1, DELETE ''fresh'', LIST]
            (kv_set tick_clock ''k'' ''v'' 0 mixed_world))) = Some ''v''"
    using h kv_set_ttl [where ttl_seconds = 0 and key = "''k''" and v = "''v''" and w = mixed_world
        and clk = tick_clock and clk' = tick_clock
        and rs = "[GET ''temporary'', SWEEP, SET ''other'' ''z'' 1, DELETE ''fresh'', LIST]"]
    by blast
  moreover have "map_get ''k'' (store (kv_set tick_clock ''k'' ''v'' 5 mixed_world))
     = Some \<lparr>entry_value = ''v'', expires_at = Some (4 + seconds 5)\<rparr>"
    using f kv_set_ttl [where ttl_seconds = 5 and key = "''k''" and v = "''v''" and w = mixed_world
        and clk = tick_clock]
    by (simp add: mixed_world_def tick_clock_def wrap64_fits)
  ultimately show ?thesis using f by simp
qed

text \<open>
  Claim C4. A second \<open>set\<close> on a key replaces the entry in full: the value is the new
  one and the expiry is the one the second call computes (none without a TTL, else the
  64-bit sum of its clock reading and the TTL, which is the plain sum within the range
  of the clock), whatever the first call stored; the key is held once (same keys, same size). When the second call has no
  TTL the expiry is cleared and \<open>get\<close> returns the new value at any later time (at
  once, and after any later requests that do not set or remove the key), also when the
  first call had set a TTL. In particular \<open>set(k, "a", 0); set(k, "b", 0)\<close>
  is followed by \<open>get(k) = found("b")\<close>.
\<close>

theorem kv_set_overwrites:
  "map_get key (store (kv_set clk key b ttl_second (kv_set clk key a ttl_first w)))
     = Some \<lparr>entry_value = b,
             expires_at = (if ttl_second \<le> 0 then None
                           else Some (wrap64 (clk (reads (kv_set clk key a ttl_first w))
                                                + seconds ttl_second)))\<rparr> \<and>
   (ttl_second > 0 \<and> fits_int64 (clk (reads (kv_set clk key a ttl_first w)) + seconds ttl_second) \<longrightarrow>
      map_get key (store (kv_set clk key b ttl_second (kv_set clk key a ttl_first w)))
        = Some \<lparr>entry_value = b,
                expires_at = Some (clk (reads (kv_set clk key a ttl_first w)) + seconds ttl_second)\<rparr>) \<and>
   map_keys (store (kv_set clk key b ttl_second (kv_set clk key a ttl_first w)))
     = map_keys (store (kv_set clk key a ttl_first w)) \<and>
   map_size (store (kv_set clk key b ttl_second (kv_set clk key a ttl_first w)))
     = map_size (store (kv_set clk key a ttl_first w)) \<and>
   (ttl_second \<le> 0 \<longrightarrow>
      fst (kv_get clk' key (kv_set clk key b ttl_second (kv_set clk key a ttl_first w))) = Some b) \<and>
   (ttl_second \<le> 0 \<and> (\<forall>r \<in> set rs. \<not> writes_key key r) \<longrightarrow>
      fst (kv_get clk' key
            (serve_all clk' rs (kv_set clk key b ttl_second (kv_set clk key a ttl_first w)))) = Some b) \<and>
   fst (kv_get clk' key (kv_set clk key ''b'' 0 (kv_set clk key ''a'' 0 w))) = Some ''b''"
proof -
  let ?w1 = "kv_set clk key a ttl_first w"
  let ?w2 = "kv_set clk key b ttl_second ?w1"
  have present: "key \<in> set (map fst (store ?w1))"
    by (simp add: store_kv_set keys_insert_or_assign)
  have m: "map_of (store ?w2) key
     = Some \<lparr>entry_value = b,
             expires_at = (if ttl_second \<le> 0 then None
                           else Some (wrap64 (clk (reads ?w1) + seconds ttl_second)))\<rparr>"
    by (simp add: store_kv_set [of clk key b ttl_second] map_of_insert_or_assign)
  have f: "map_of (store ?w2) key
     = Some \<lparr>entry_value = b, expires_at = Some (clk (reads ?w1) + seconds ttl_second)\<rparr>"
    if "ttl_second > 0" "fits_int64 (clk (reads ?w1) + seconds ttl_second)"
    using m that(1) wrap64_fits [OF that(2)] by simp
  have k: "map fst (store ?w2) = map fst (store ?w1)"
    using present by (simp add: store_kv_set [of clk key b ttl_second] keys_insert_or_assign)
  then have "length (map fst (store ?w2)) = length (map fst (store ?w1))"
    by simp
  then have l: "length (store ?w2) = length (store ?w1)"
    by simp
  have g: "fst (kv_get clk' key ?w2) = Some b" if "ttl_second \<le> 0"
    using kv_get_no_ttl [of ?w2 key "\<lparr>entry_value = b, expires_at = None\<rparr>" clk'] m that
    by simp
  have h: "fst (kv_get clk' key (serve_all clk' rs ?w2)) = Some b"
    if "ttl_second \<le> 0" "\<forall>r \<in> set rs. \<not> writes_key key r"
  proof -
    have "map_of (store (serve_all clk' rs ?w2)) key = Some \<lparr>entry_value = b, expires_at = None\<rparr>"
      using m that by (intro serve_all_keeps_no_ttl) simp_all
    from kv_get_no_ttl [OF this] show ?thesis by simp
  qed
  have "fst (kv_get clk' key (kv_set clk key ''b'' 0 (kv_set clk key ''a'' 0 w))) = Some ''b''"
    using kv_get_no_ttl [of "kv_set clk key ''b'' 0 (kv_set clk key ''a'' 0 w)" key
        "\<lparr>entry_value = ''b'', expires_at = None\<rparr>" clk']
    by (simp add: store_kv_set [of clk key "''b''" 0] map_of_insert_or_assign)
  with m f k l g h show ?thesis
    by (simp add: map_get_def map_keys_def map_size_def)
qed

theorem kv_set_overwrites_witness:
  "(0::int) \<le> 0 \<and>
   fst (kv_get tick_clock ''k''
         (kv_set tick_clock ''k'' ''b'' 0 (kv_set tick_clock ''k'' ''a'' 7 empty_world))) = Some ''b'' \<and>
   (0::int) < 9 \<and>
   fits_int64 (tick_clock (reads (kv_set tick_clock ''k'' ''a'' 7 empty_world)) + seconds 9) \<and>
   map_get ''k'' (store (kv_set tick_clock ''k'' ''b'' 9 (kv_set tick_clock ''k'' ''a'' 7 empty_world)))
     = Some \<lparr>entry_value = ''b'', expires_at = Some (5 + seconds 9)\<rparr>"
proof -
  have r: "reads (kv_set tick_clock ''k'' ''a'' 7 empty_world) = 1"
    by (simp add: kv_set_def calculate_expiry_def now_def logger_def empty_world_def Let_def)
  have f: "fits_int64 (tick_clock (reads (kv_set tick_clock ''k'' ''a'' 7 empty_world)) + seconds 9)"
    by (simp add: r fits_int64_def tick_clock_def seconds_def)
  show ?thesis
    using f
      kv_set_overwrites [where ttl_second = 0 and ttl_first = 7 and key = "''k''" and a = "''a''"
        and b = "''b''" and w = empty_world and clk = tick_clock and clk' = tick_clock]
      kv_set_overwrites [where ttl_second = 9 and ttl_first = 7 and key = "''k''" and a = "''a''"
        and b = "''b''" and w = empty_world and clk = tick_clock]
    by (simp add: r tick_clock_def wrap64_fits)
qed

text \<open>
  Claim C5. \<open>remove(k)\<close> returns true exactly when an entry for \<open>k\<close> is in the map at
  the call, expired or not; on an absent key it returns false and changes nothing.
  After a removal the key is absent, a second \<open>remove(k)\<close> returns false, and the
  other keys are as before.
\<close>

theorem kv_remove_present_iff:
  "fst (kv_remove key w) = (map_get key (store w) \<noteq> None) \<and>
   (map_get key (store w) = Some e \<and> expired_at t e \<longrightarrow> fst (kv_remove key w)) \<and>
   (map_get key (store w) = None \<longrightarrow>
      \<not> fst (kv_remove key w) \<and> store (snd (kv_remove key w)) = store w) \<and>
   (unique_keys (store w) \<longrightarrow>
      map_get key (store (snd (kv_remove key w))) = None \<and>
      \<not> fst (kv_remove key (snd (kv_remove key w))) \<and>
      (\<forall>k. k \<noteq> key \<longrightarrow> map_get k (store (snd (kv_remove key w))) = map_get k (store w)))"
  by (auto simp: fst_kv_remove store_kv_remove map_get_def map_of_erase erase_absent)


theorem kv_remove_present_iff_witness:
  "map_get ''temporary'' (store mixed_world) = Some (entry_until ''goes away'' 3) \<and>
   expired_at 4 (entry_until ''goes away'' 3) \<and>
   fst (kv_remove ''temporary'' mixed_world) \<and>
   unique_keys (store mixed_world) \<and>
   \<not> fst (kv_remove ''temporary'' (snd (kv_remove ''temporary'' mixed_world))) \<and>
   map_get ''absent'' (store mixed_world) = None \<and>
   \<not> fst (kv_remove ''absent'' mixed_world)"
  using kv_remove_present_iff [where key = "''temporary''" and w = mixed_world
      and e = "entry_until ''goes away'' 3" and t = 4]
    kv_remove_present_iff [where key = "''absent''" and w = mixed_world]
  by (simp add: mixed_world_def map_get_def unique_keys_def expired_at_def entry_until_def)

section \<open>ExpiryManager: stop\<close>











section \<open>TcpServer: start\<close>

text \<open>When the setup succeeds the accept loop is entered: with no turn given it is still running.\<close>

lemma accept_loop_enters: "\<not> setup_failed env \<Longrightarrow> tcp_start port env [] = None"
  by (simp add: tcp_start_def setup_failed_def Let_def)



end
